theory Spec2Isabelle
  imports Main "HOL-Library.Word" "HOL-Library.Sublist"
begin

section \<open>JavaScript strings\<close>

text \<open>
  A JavaScript string is a sequence of UTF-16 code units; \<open>length\<close>, \<open>trim\<close>, \<open>split\<close> and the
  regular expressions of \<open>build-embeddings.mjs\<close> all work on code units, so the model does too.
  String literals of the script are ASCII and are written through \<open>js\<close>.
\<close>

type_synonym code_unit = "16 word"
type_synonym jsstring = "code_unit list"

definition js :: "string \<Rightarrow> jsstring" where
  "js s = map (\<lambda>c. of_char c) s"

definition NL :: code_unit where
  "NL = 0x0A"

definition SP :: code_unit where
  "SP = 0x20"

text \<open>
  The class \<open>\s\<close> of a JavaScript regular expression, which is also what \<open>trim\<close> strips:
  WhiteSpace and LineTerminator of ECMAScript.
\<close>

definition isSpace :: "code_unit \<Rightarrow> bool" where
  "isSpace c =
     (c = 0x09 \<or> c = 0x0A \<or> c = 0x0B \<or> c = 0x0C \<or> c = 0x0D \<or> c = 0x20 \<or> c = 0xA0 \<or>
      c = 0x1680 \<or> (0x2000 \<le> c \<and> c \<le> 0x200A) \<or> c = 0x2028 \<or> c = 0x2029 \<or>
      c = 0x202F \<or> c = 0x205F \<or> c = 0x3000 \<or> c = 0xFEFF)"

text \<open>\<open>String.prototype.trim\<close>.\<close>

definition trim :: "jsstring \<Rightarrow> jsstring" where
  "trim s = rev (dropWhile isSpace (rev (dropWhile isSpace s)))"

text \<open>\<open>s.replace(/\s+/g, " ")\<close>: every maximal run of white space becomes one space.\<close>

function collapse_ws :: "jsstring \<Rightarrow> jsstring" where
  "collapse_ws [] = []"
| "collapse_ws (c # cs) =
     (if isSpace c then SP # collapse_ws (dropWhile isSpace cs) else c # collapse_ws cs)"
  by pat_completeness auto
termination
  by (relation "measure length") (auto simp: le_imp_less_Suc length_dropWhile_le)

text \<open>
  \<open>s.split(/\n{2,}/g)\<close>. The matcher looks, from left to right, for a position where two
  newlines stand; the separator is the whole run of newlines from there (the quantifier is
  greedy), and the text before it is a piece. The empty string splits into one empty piece.
\<close>

definition prepend :: "code_unit \<Rightarrow> jsstring list \<Rightarrow> jsstring list" where
  "prepend c ps = (case ps of [] \<Rightarrow> [[c]] | p # qs \<Rightarrow> (c # p) # qs)"

function split_blank :: "jsstring \<Rightarrow> jsstring list" where
  "split_blank [] = [[]]"
| "split_blank [c] = [[c]]"
| "split_blank (c # d # cs) =
     (if c = NL \<and> d = NL then [] # split_blank (dropWhile (\<lambda>x. x = NL) cs)
      else prepend c (split_blank (d # cs)))"
  by pat_completeness auto
termination
  by (relation "measure length") (auto simp: le_imp_less_Suc length_dropWhile_le less_SucI)

text \<open>
  \<open>s.replace(/(a|b)$/, "")\<close> for literal, non-empty alternatives: the leftmost position from
  which the rest of the string is one of the alternatives is where the string is cut. This is
  \<open>/\.mdx?$/\<close> with the alternatives \<open>.mdx\<close> and \<open>.md\<close>, and \<open>/\/index$/\<close> with the one
  alternative \<open>/index\<close>.
\<close>

fun replace_at_end :: "jsstring list \<Rightarrow> jsstring \<Rightarrow> jsstring" where
  "replace_at_end alts [] = []"
| "replace_at_end alts (c # cs) =
     (if c # cs \<in> set alts then [] else c # replace_at_end alts cs)"

text \<open>\<open>s.replace(/\\/g, "/")\<close>.\<close>

definition slashes :: "jsstring \<Rightarrow> jsstring" where
  "slashes s = map (\<lambda>c. if c = 0x5C then 0x2F else c) s"

text \<open>The decimal digits of an array index, as a template literal prints it.\<close>

fun digits :: "nat \<Rightarrow> jsstring" where
  "digits n =
     (if n < 10 then [of_nat (48 + n)] else digits (n div 10) @ [of_nat (48 + n mod 10)])"

declare digits.simps [simp del]

section \<open>Configuration\<close>

definition CONTENT_DIR :: jsstring where
  "CONTENT_DIR = js ''src/data/blog''"

definition BATCH_SIZE :: nat where
  "BATCH_SIZE = 16"

definition MAX_CONCURRENCY :: nat where
  "MAX_CONCURRENCY = 2"

section \<open>Helpers of the script\<close>

text \<open>
  \<open>deriveSlug(filePath, fmSlug)\<close>. The front-matter field is \<open>None\<close> when it is absent;
  an absent and an empty string are the falsy values. \<open>path.relative\<close> and
  \<open>String.prototype.toLowerCase\<close> are library functions and are parameters.
\<close>

definition deriveSlug ::
  "(jsstring \<Rightarrow> jsstring \<Rightarrow> jsstring) \<Rightarrow> (jsstring \<Rightarrow> jsstring) \<Rightarrow>
   jsstring \<Rightarrow> jsstring option \<Rightarrow> jsstring" where
  "deriveSlug path_relative toLowerCase filePath fmSlug =
     (case fmSlug of
        Some s \<Rightarrow>
          if s \<noteq> [] \<and> trim s \<noteq> [] then trim s
          else toLowerCase (replace_at_end [js ''/index'']
                 (replace_at_end [js ''.mdx'', js ''.md'']
                   (slashes (path_relative CONTENT_DIR filePath))))
      | None \<Rightarrow>
          toLowerCase (replace_at_end [js ''/index'']
            (replace_at_end [js ''.mdx'', js ''.md'']
              (slashes (path_relative CONTENT_DIR filePath)))))"

text \<open>
  \<open>markdownToPlain(md)\<close>: the remark pipeline with strip-markdown is the parameter
  \<open>strip\<close>; the script then collapses white space and trims.
\<close>

definition markdownToPlain :: "(jsstring \<Rightarrow> jsstring) \<Rightarrow> jsstring \<Rightarrow> jsstring" where
  "markdownToPlain strip md = trim (collapse_ws (strip md))"

record chunk =
  chunk_id :: jsstring
  chunk_text :: jsstring

text \<open>\<open>chunkText(text, baseSlug)\<close>.\<close>

definition chunkText :: "jsstring \<Rightarrow> jsstring \<Rightarrow> chunk list" where
  "chunkText text baseSlug =
     (let paras = filter (\<lambda>p. 40 < length (trim p)) (split_blank text)
      in map (\<lambda>(i, p). \<lparr>chunk_id = baseSlug @ js ''#para-'' @ digits i, chunk_text = p\<rparr>)
           (enumerate 0 paras))"

section \<open>The build\<close>

text \<open>
  Front matter as gray-matter returns it, with the four fields the script reads. A string
  field is \<open>None\<close> when absent; \<open>fm_draft\<close> is the truthiness of \<open>fm.draft\<close>.
\<close>

record front_matter =
  fm_slug :: "jsstring option"
  fm_title :: "jsstring option"
  fm_description :: "jsstring option"
  fm_draft :: bool

text \<open>The object \<open>{ id, slug, title, description, mtime }\<close> queued with every fragment.\<close>

record meta =
  m_id :: jsstring
  m_slug :: jsstring
  m_title :: jsstring
  m_description :: jsstring
  m_mtime :: int

text \<open>A queue element \<open>{ meta, text }\<close>.\<close>

record item =
  item_meta :: meta
  item_text :: jsstring

text \<open>
  A record of the index, \<open>{ ...item.meta, vector }\<close>. The vector is whatever the provider
  returned for the fragment; its type is a parameter.
\<close>

record 'v entry =
  e_id :: jsstring
  e_slug :: jsstring
  e_title :: jsstring
  e_description :: jsstring
  e_mtime :: int
  e_vector :: 'v

definition mk_entry :: "item \<Rightarrow> 'v \<Rightarrow> 'v entry" where
  "mk_entry it v =
     \<lparr>e_id = m_id (item_meta it), e_slug = m_slug (item_meta it),
      e_title = m_title (item_meta it), e_description = m_description (item_meta it),
      e_mtime = m_mtime (item_meta it), e_vector = v\<rparr>"

definition entry_meta :: "'v entry \<Rightarrow> meta" where
  "entry_meta e =
     \<lparr>m_id = e_id e, m_slug = e_slug e, m_title = e_title e,
      m_description = e_description e, m_mtime = e_mtime e\<rparr>"

text \<open>
  The file \<open>public/semantic-index.json\<close>: missing, present but not a JSON array
  (\<open>JSON.parse\<close> or \<open>raw.forEach\<close> throws), or a serialized sequence of records as the
  script writes them. An array with elements that are not records is not modelled.
\<close>

datatype 'v artifact = Absent | Unparsable | Json "'v entry list"

text \<open>
  What the script calls and does not define. \<open>None\<close> is a call that throws. The provider
  is the pipeline already loaded (line 68 has returned), taken as a function of the texts it
  is given; \<open>fs_stat\<close> gives \<open>+stat.mtime\<close>.
\<close>

record 'v externals =
  extractor :: "jsstring list \<Rightarrow> 'v list option"
  matter :: "jsstring \<Rightarrow> (jsstring \<times> front_matter) option"
  remark_strip :: "jsstring \<Rightarrow> jsstring"
  path_relative :: "jsstring \<Rightarrow> jsstring \<Rightarrow> jsstring"
  toLowerCase :: "jsstring \<Rightarrow> jsstring"
  fs_stat :: "jsstring \<Rightarrow> int option"
  fs_readFile :: "jsstring \<Rightarrow> jsstring option"

datatype error = StatError | ReadError | MatterError | ExtractorError | TypeError

text \<open>
  The variables of the main function that the loop updates, and a log of the texts of every
  provider call (the log is not in the script; it records what the provider was asked).
\<close>

record 'v build =
  queue :: "item list"
  embeddings :: "'v entry list"
  calls :: "jsstring list list"

definition init :: "'v build" where
  "init = \<lparr>queue = [], embeddings = [], calls = []\<rparr>"

text \<open>
  Lines 89 to 93: \<open>prev[e.id] = e.mtime\<close> for every record of the previous artifact, and
  \<open>prev = {}\<close> when it cannot be read. \<open>prev\<close> is a plain object, so an assignment to
  the key \<open>__proto__\<close> with a number stores nothing.
\<close>

definition prev_set :: "(jsstring \<rightharpoonup> int) \<Rightarrow> 'v entry \<Rightarrow> (jsstring \<rightharpoonup> int)" where
  "prev_set prev e = (if e_id e = js ''__proto__'' then prev else prev(e_id e \<mapsto> e_mtime e))"

definition load_prev :: "'v artifact \<Rightarrow> (jsstring \<rightharpoonup> int)" where
  "load_prev disk = (case disk of Json raw \<Rightarrow> foldl prev_set Map.empty raw | _ \<Rightarrow> Map.empty)"

text \<open>Line 131: \<open>prev[slug] && prev[slug] === mtime\<close>.\<close>

definition unchanged :: "(jsstring \<rightharpoonup> int) \<Rightarrow> jsstring \<Rightarrow> int \<Rightarrow> bool" where
  "unchanged prev slug mtime =
     (case prev slug of None \<Rightarrow> False | Some t \<Rightarrow> t \<noteq> 0 \<and> t = mtime)"

text \<open>\<open>a || b\<close> for a string field that may be absent.\<close>

definition or_else :: "jsstring option \<Rightarrow> jsstring \<Rightarrow> jsstring" where
  "or_else a b = (case a of None \<Rightarrow> b | Some s \<Rightarrow> if s = [] then b else s)"

text \<open>Lines 139 to 144: the queue elements of one document's chunks.\<close>

definition queue_items ::
  "jsstring \<Rightarrow> jsstring \<Rightarrow> jsstring \<Rightarrow> int \<Rightarrow> chunk list \<Rightarrow> item list" where
  "queue_items slug title description mtime chunks =
     map (\<lambda>chunk.
       \<lparr>item_meta = \<lparr>m_id = chunk_id chunk, m_slug = slug, m_title = title,
                     m_description = description, m_mtime = mtime\<rparr>,
        item_text = title @ js ''. '' @ description @ js ''. '' @ chunk_text chunk\<rparr>) chunks"

text \<open>
  \<open>flushBatch\<close>. An output sequence shorter than the batch makes \<open>outputs[i].data\<close> throw
  after the records before \<open>i\<close> were pushed.
\<close>

definition flushBatch :: "'v externals \<Rightarrow> 'v build \<Rightarrow> 'v build \<times> error option" where
  "flushBatch ex s =
     (if queue s = [] then (s, None)
      else
        let batch = take BATCH_SIZE (queue s);
            texts = map item_text batch;
            s1 = s\<lparr>queue := drop BATCH_SIZE (queue s), calls := calls s @ [texts]\<rparr>
        in case extractor ex texts of
             None \<Rightarrow> (s1, Some ExtractorError)
           | Some outputs \<Rightarrow>
               (s1\<lparr>embeddings := embeddings s1 @ map2 mk_entry batch outputs\<rparr>,
                if length outputs < length batch then Some TypeError else None))"

text \<open>The body of the loop over \<open>files\<close>, lines 116 to 149.\<close>

definition loop_body ::
  "'v externals \<Rightarrow> (jsstring \<rightharpoonup> int) \<Rightarrow> jsstring \<Rightarrow> 'v build \<Rightarrow> 'v build \<times> error option" where
  "loop_body ex prev filePath s =
     (case fs_stat ex filePath of
        None \<Rightarrow> (s, Some StatError)
      | Some mtime \<Rightarrow>
     (case fs_readFile ex filePath of
        None \<Rightarrow> (s, Some ReadError)
      | Some contentRaw \<Rightarrow>
     (case matter ex contentRaw of
        None \<Rightarrow> (s, Some MatterError)
      | Some (content, fm) \<Rightarrow>
          if fm_draft fm then (s, None)
          else
            let slug = deriveSlug (path_relative ex) (toLowerCase ex) filePath (fm_slug fm);
                title = or_else (fm_title fm) slug;
                description = or_else (fm_description fm) []
            in if unchanged prev slug mtime then (s, None)
               else
                 let plain = markdownToPlain (remark_strip ex) content;
                     chunks = chunkText plain slug;
                     s1 = s\<lparr>queue := queue s @ queue_items slug title description mtime chunks\<rparr>
                 in if BATCH_SIZE * MAX_CONCURRENCY \<le> length (queue s1) then flushBatch ex s1
                    else (s1, None))))"

fun ingest ::
  "'v externals \<Rightarrow> (jsstring \<rightharpoonup> int) \<Rightarrow> jsstring list \<Rightarrow> 'v build \<Rightarrow> 'v build \<times> error option" where
  "ingest ex prev [] s = (s, None)"
| "ingest ex prev (filePath # files) s =
     (case loop_body ex prev filePath s of
        (s', Some e) \<Rightarrow> (s', Some e)
      | (s', None) \<Rightarrow> ingest ex prev files s')"

text \<open>
  The main function from the enumeration on (line 80): \<open>files\<close> is what \<open>glob\<close> returned and
  \<open>disk\<close> the artifact file before the run. The result is the artifact file after the run,
  the final variables, and the error that ended the run, if any. The file is written at line
  84 and at line 156 only; the progress bar and the similarity check at the end are left out.
\<close>

definition main ::
  "'v externals \<Rightarrow> jsstring list \<Rightarrow> 'v artifact \<Rightarrow> 'v artifact \<times> 'v build \<times> error option" where
  "main ex files disk =
     (if files = [] then (Json [], init, None)
      else
        let prev = load_prev disk in
        case ingest ex prev files init of
          (s, Some e) \<Rightarrow> (disk, s, Some e)
        | (s, None) \<Rightarrow>
            (case flushBatch ex s of
               (s', Some e) \<Rightarrow> (disk, s', Some e)
             | (s', None) \<Rightarrow> (Json (embeddings s'), s', None)))"

section \<open>The specification's reading of the build\<close>



text \<open>
  What splitting on runs of two or more newlines means, independently of \<open>split_blank\<close>:
  \<open>blank_in\<close> says that two newlines stand next to each other somewhere in a string,
  \<open>blank_runs\<close> lists the maximal runs of two or more newlines of a text, and
  \<open>interleave\<close> puts pieces and separators back together.
\<close>

fun blank_in :: "jsstring \<Rightarrow> bool" where
  "blank_in (c # d # cs) = ((c = NL \<and> d = NL) \<or> blank_in (d # cs))"
| "blank_in cs = False"

function blank_runs :: "jsstring \<Rightarrow> jsstring list" where
  "blank_runs [] = []"
| "blank_runs [c] = []"
| "blank_runs (c # d # cs) =
     (if c = NL \<and> d = NL
      then (c # d # takeWhile (\<lambda>x. x = NL) cs) # blank_runs (dropWhile (\<lambda>x. x = NL) cs)
      else blank_runs (d # cs))"
  by pat_completeness auto
termination
  by (relation "measure length") (auto simp: le_imp_less_Suc length_dropWhile_le less_SucI)

fun interleave :: "jsstring list \<Rightarrow> jsstring list \<Rightarrow> jsstring" where
  "interleave [] seps = []"
| "interleave (p # ps) [] = p @ concat ps"
| "interleave (p # ps) (s # ss) = p @ s @ interleave ps ss"

text \<open>
  The records of a sequence of fragments embedded in consecutive batches of \<open>BATCH_SIZE\<close>,
  the i-th vector of a batch going to its i-th fragment.
\<close>

definition outputs_of :: "'v externals \<Rightarrow> jsstring list \<Rightarrow> 'v list" where
  "outputs_of ex texts = (case extractor ex texts of None \<Rightarrow> [] | Some outputs \<Rightarrow> outputs)"

function embed_in_batches :: "'v externals \<Rightarrow> item list \<Rightarrow> 'v entry list" where
  "embed_in_batches ex items =
     (if items = [] then []
      else map2 mk_entry (take BATCH_SIZE items)
             (outputs_of ex (map item_text (take BATCH_SIZE items)))
           @ embed_in_batches ex (drop BATCH_SIZE items))"
  by pat_completeness auto
termination
  by (relation "measure (\<lambda>(ex, items). length items)") (auto simp: BATCH_SIZE_def)

declare embed_in_batches.simps [simp del]

text \<open>
  The queue elements a document contributes: none for a draft and for a document the
  change check skips, otherwise one for every chunk of its plain text.
\<close>

definition file_items :: "'v externals \<Rightarrow> (jsstring \<rightharpoonup> int) \<Rightarrow> jsstring \<Rightarrow> item list" where
  "file_items ex prev filePath =
     (case fs_stat ex filePath of
        None \<Rightarrow> []
      | Some mtime \<Rightarrow>
     (case fs_readFile ex filePath of
        None \<Rightarrow> []
      | Some contentRaw \<Rightarrow>
     (case matter ex contentRaw of
        None \<Rightarrow> []
      | Some (content, fm) \<Rightarrow>
          if fm_draft fm then []
          else
            let slug = deriveSlug (path_relative ex) (toLowerCase ex) filePath (fm_slug fm);
                title = or_else (fm_title fm) slug;
                description = or_else (fm_description fm) []
            in if unchanged prev slug mtime then []
               else queue_items slug title description mtime
                      (chunkText (markdownToPlain (remark_strip ex) content) slug))))"

text \<open>The slug of a document, and whether its front matter marks it as a draft.\<close>

definition doc_slug :: "'v externals \<Rightarrow> jsstring \<Rightarrow> jsstring option" where
  "doc_slug ex filePath =
     (case fs_readFile ex filePath of
        None \<Rightarrow> None
      | Some contentRaw \<Rightarrow>
     (case matter ex contentRaw of
        None \<Rightarrow> None
      | Some (content, fm) \<Rightarrow>
          Some (deriveSlug (path_relative ex) (toLowerCase ex) filePath (fm_slug fm))))"

definition is_draft :: "'v externals \<Rightarrow> jsstring \<Rightarrow> bool" where
  "is_draft ex filePath =
     (case fs_readFile ex filePath of
        None \<Rightarrow> False
      | Some contentRaw \<Rightarrow>
     (case matter ex contentRaw of
        None \<Rightarrow> False
      | Some (content, fm) \<Rightarrow> fm_draft fm))"

section \<open>Example inputs\<close>

text \<open>
  A small corpus and stand-ins for the external collaborators, used to run the build on
  concrete inputs: every post has the same body of 43 characters and modification time 100;
  \<open>wip.md\<close> is a draft, \<open>alias.md\<close> overrides its slug, and the front matter of
  \<open>bad.md\<close> does not parse. The provider returns the length of each text as its vector.
\<close>

definition body43 :: jsstring where
  "body43 = js ''Vector search ranks posts by their meaning.''"

definition two_paragraphs :: jsstring where
  "two_paragraphs = body43 @ js ''\<newline>\<newline>\<newline>short\<newline>\<newline>'' @ body43"

definition raw_draft :: jsstring where
  "raw_draft = js ''---\<newline>draft: true\<newline>---\<newline>'' @ body43"

definition raw_slug :: jsstring where
  "raw_slug = js ''---\<newline>slug: a#para-0\<newline>---\<newline>'' @ body43"

definition raw_bad :: jsstring where
  "raw_bad = js ''---\<newline>title: [\<newline>---\<newline>'' @ body43"

definition no_fields :: front_matter where
  "no_fields = \<lparr>fm_slug = None, fm_title = None, fm_description = None, fm_draft = False\<rparr>"

definition demo_matter :: "jsstring \<Rightarrow> (jsstring \<times> front_matter) option" where
  "demo_matter raw =
     (if raw = raw_bad then None
      else if raw = raw_draft then Some (body43, no_fields\<lparr>fm_draft := True\<rparr>)
      else if raw = raw_slug then Some (body43, no_fields\<lparr>fm_slug := Some (js ''a#para-0'')\<rparr>)
      else Some (raw, no_fields))"

definition post :: "string \<Rightarrow> jsstring" where
  "post name = js ''src/data/blog/'' @ js name @ js ''.md''"

definition demo_readFile :: "jsstring \<Rightarrow> jsstring option" where
  "demo_readFile p =
     (if p = post ''bad'' then Some raw_bad
      else if p = post ''wip'' then Some raw_draft
      else if p = post ''alias'' then Some raw_slug
      else Some body43)"

definition lower_ascii :: "jsstring \<Rightarrow> jsstring" where
  "lower_ascii s = map (\<lambda>c. if 0x41 \<le> c \<and> c \<le> 0x5A then c + 0x20 else c) s"

definition demo :: "nat list externals" where
  "demo =
     \<lparr>extractor = (\<lambda>texts. Some (map (\<lambda>t. [length t]) texts)),
      matter = demo_matter,
      remark_strip = (\<lambda>md. md),
      path_relative = (\<lambda>dir p. drop (Suc (length dir)) p),
      toLowerCase = lower_ascii,
      fs_stat = (\<lambda>p. Some 100),
      fs_readFile = demo_readFile\<rparr>"

definition demo_entry :: "string \<Rightarrow> string \<Rightarrow> nat \<Rightarrow> nat list entry" where
  "demo_entry slug ident n =
     \<lparr>e_id = js ident, e_slug = js slug, e_title = js slug, e_description = [],
      e_mtime = 100, e_vector = [n]\<rparr>"

definition failing :: "nat list externals" where
  "failing = demo\<lparr>extractor := (\<lambda>texts. None)\<rparr>"

definition posts17 :: "jsstring list" where
  "posts17 = map (\<lambda>c. post [c]) ''abcdefghijklmnopq''"

definition demo_text :: "string \<Rightarrow> jsstring" where
  "demo_text slug = js slug @ js ''. . '' @ body43"

section \<open>Strings\<close>

lemma dropWhile_fix: "xs = [] \<or> \<not> P (hd xs) \<Longrightarrow> dropWhile P xs = xs"
  by (cases xs) auto

lemma set_trim: "set (trim s) \<subseteq> set s"
  by (auto simp: trim_def dest!: set_dropWhileD)

lemma last_dropWhile: "dropWhile P xs \<noteq> [] \<Longrightarrow> last (dropWhile P xs) = last xs"
  by (induction xs) (auto split: if_splits)

lemma trim_ends:
  assumes "trim s \<noteq> []"
  shows "\<not> isSpace (hd (trim s))" and "\<not> isSpace (last (trim s))"
proof -
  define u where "u = dropWhile isSpace s"
  define w where "w = dropWhile isSpace (rev u)"
  have t: "trim s = rev w" by (simp add: trim_def u_def w_def)
  with assms have w: "w \<noteq> []" by simp
  then have u: "u \<noteq> []" by (auto simp: w_def)
  have "\<not> isSpace (hd w)" using w unfolding w_def by (rule hd_dropWhile)
  then show "\<not> isSpace (last (trim s))" using w by (simp add: t last_rev)
  have "last w = last (rev u)" using w unfolding w_def by (rule last_dropWhile)
  also have "\<dots> = hd u" using u by (simp add: last_rev)
  finally have "hd (trim s) = hd u" using w by (simp add: t hd_rev)
  moreover have "\<not> isSpace (hd u)" using u unfolding u_def by (rule hd_dropWhile)
  ultimately show "\<not> isSpace (hd (trim s))" by simp
qed

lemma trim_fixed:
  assumes "xs = [] \<or> (\<not> isSpace (hd xs) \<and> \<not> isSpace (last xs))"
  shows "trim xs = xs"
proof (cases "xs = []")
  case True
  then show ?thesis by (simp add: trim_def)
next
  case False
  with assms have h: "\<not> isSpace (hd xs)" and l: "\<not> isSpace (last xs)" by auto
  have "dropWhile isSpace xs = xs" using h by (simp add: dropWhile_fix)
  moreover have "dropWhile isSpace (rev xs) = rev xs"
    using l False by (simp add: dropWhile_fix hd_rev)
  ultimately show ?thesis by (simp add: trim_def)
qed

lemma trim_trim: "trim (trim s) = trim s"
  using trim_ends [of s] by (intro trim_fixed) blast

lemma collapse_ws_space: "c \<in> set (collapse_ws s) \<Longrightarrow> isSpace c \<Longrightarrow> c = SP"
  by (induction s rule: collapse_ws.induct) (auto split: if_splits)

lemma isSpace_NL: "isSpace NL" by (simp add: isSpace_def NL_def)
lemma NL_neq_SP: "NL \<noteq> SP" by (simp add: NL_def SP_def)

lemma markdownToPlain_no_NL: "NL \<notin> set (markdownToPlain strip md)"
  unfolding markdownToPlain_def using set_trim collapse_ws_space isSpace_NL NL_neq_SP by blast

lemma split_blank_no_NL: "NL \<notin> set t \<Longrightarrow> split_blank t = [t]"
  by (induction t rule: split_blank.induct) (auto simp: prepend_def)

lemma trim_markdownToPlain: "trim (markdownToPlain strip md) = markdownToPlain strip md"
  by (simp add: markdownToPlain_def trim_trim)

lemma digits_0: "digits 0 = js ''0''"
  by (simp add: digits.simps js_def)

section \<open>Slugs\<close>





section \<open>Chunks of a converted body\<close>

lemma chunkText_plain:
  "chunkText (markdownToPlain strip md) slug =
     (if 40 < length (markdownToPlain strip md)
      then [\<lparr>chunk_id = slug @ js ''#para-0'', chunk_text = markdownToPlain strip md\<rparr>]
      else [])"
  by (simp add: chunkText_def split_blank_no_NL [OF markdownToPlain_no_NL]
      trim_markdownToPlain enumerate_eq_zip digits_0 js_def)

text \<open>
  C4: the chunker applied to the output of \<open>markdownToPlain\<close> never splits. It returns no
  fragment when the plain text has at most 40 code units, and otherwise exactly one fragment,
  numbered 0, whose text is the whole plain text.
\<close>

theorem chunkText_markdownToPlain:
  "chunkText (markdownToPlain strip md) slug =
     (if 40 < length (markdownToPlain strip md)
      then [\<lparr>chunk_id = slug @ js ''#para-0'', chunk_text = markdownToPlain strip md\<rparr>]
      else [])"
  by (rule chunkText_plain)

section \<open>The chunker\<close>

lemma map_snd_enumerate: "map snd (enumerate n xs) = xs"
  by (simp add: enumerate_eq_zip)

lemma chunkText_texts:
  "map chunk_text (chunkText t s) = filter (\<lambda>p. 40 < length (trim p)) (split_blank t)"
  by (simp add: chunkText_def Let_def comp_def case_prod_unfold map_snd_enumerate)

lemma map_index_enumerate:
  "map (\<lambda>x. f (fst x)) (enumerate n xs) = map f [n..<n + length xs]"
proof -
  have "map (\<lambda>x. f (fst x)) (enumerate n xs) = map f (map fst (enumerate n xs))"
    by (simp only: map_map comp_def)
  then show ?thesis by (simp only: map_fst_enumerate)
qed

lemma chunkText_ids:
  "map chunk_id (chunkText t s) =
     map (\<lambda>i. s @ js ''#para-'' @ digits i) [0..<length (chunkText t s)]"
  by (simp add: chunkText_def Let_def comp_def case_prod_unfold
      map_index_enumerate [of "\<lambda>i. s @ js ''#para-'' @ digits i" 0])

lemma split_blank_not_Nil: "split_blank t \<noteq> []"
  by (induction t rule: split_blank.induct) (auto simp: prepend_def split: list.splits)

lemma split_blank_first:
  "split_blank (d # cs) = p # ps \<Longrightarrow> p = [] \<or> hd p = d"
  by (cases cs) (auto simp: prepend_def split: if_splits list.splits)

lemma split_blank_unbroken: "\<not> blank_in t \<Longrightarrow> split_blank t = [t]"
  by (induction t rule: split_blank.induct) (auto simp: prepend_def)

lemma blank_in_Cons: "blank_in (c # p) = ((c = NL \<and> p \<noteq> [] \<and> hd p = NL) \<or> blank_in p)"
  by (cases p) auto

lemma split_blank_pieces: "p \<in> set (split_blank t) \<Longrightarrow> \<not> blank_in p"
proof (induction t arbitrary: p rule: split_blank.induct)
  case 1
  then show ?case by simp
next
  case (2 c)
  then show ?case by simp
next
  case (3 c d cs)
  show ?case
  proof (cases "c = NL \<and> d = NL")
    case True
    with 3 show ?thesis by auto
  next
    case False
    obtain q qs where q: "split_blank (d # cs) = q # qs"
      using split_blank_not_Nil [of "d # cs"] by (cases "split_blank (d # cs)") auto
    from split_blank_first [OF q] have hd: "q = [] \<or> hd q = d" .
    have nq: "\<not> blank_in q" using "3.IH"(2) False q by simp
    have "\<not> blank_in (c # q)" using hd nq False by (auto simp: blank_in_Cons)
    moreover have "p = c # q \<or> p \<in> set qs"
      using "3.prems" False q by (auto simp: prepend_def)
    moreover have "\<not> blank_in r" if "r \<in> set qs" for r
      using "3.IH"(2) False q that by simp
    ultimately show ?thesis by auto
  qed
qed

lemma interleave_prepend:
  "ps \<noteq> [] \<Longrightarrow> interleave (prepend c ps) seps = c # interleave ps seps"
  by (cases ps; cases seps) (auto simp: prepend_def)

lemma split_blank_rejoin: "interleave (split_blank t) (blank_runs t) = t"
proof (induction t rule: split_blank.induct)
  case 1
  then show ?case by simp
next
  case (2 c)
  then show ?case by simp
next
  case (3 c d cs)
  then show ?case by (auto simp: interleave_prepend split_blank_not_Nil)
qed

lemma length_blank_runs: "length (split_blank t) = Suc (length (blank_runs t))"
proof (induction t rule: split_blank.induct)
  case (3 c d cs)
  then show ?case
    using split_blank_not_Nil [of "d # cs"]
    by (auto simp: prepend_def split: list.splits)
qed simp_all

lemma blank_runs_newlines:
  "s \<in> set (blank_runs t) \<Longrightarrow> 2 \<le> length s \<and> set s = {NL}"
proof (induction t arbitrary: s rule: blank_runs.induct)
  case (3 c d cs)
  then show ?case by (auto split: if_splits dest: set_takeWhileD)
qed simp_all

text \<open>
  C5, as the code has it: the text is cut at its runs of two or more newlines (the pieces,
  put back together with those runs between them, give the text, and no piece contains two
  newlines in a row); the fragments are the pieces whose trimmed length is greater than 40, in their
  original order, each with its text as split (the trimmed text is only measured), and the
  i-th of them has the id \<open>slug#para-i\<close>. A text all of whose pieces are that short gives
  the empty list.
\<close>

theorem chunkText_threshold:
  "map chunk_text (chunkText t s) = filter (\<lambda>p. 40 < length (trim p)) (split_blank t) \<and>
   map chunk_id (chunkText t s) =
     map (\<lambda>i. s @ js ''#para-'' @ digits i) [0..<length (chunkText t s)] \<and>
   interleave (split_blank t) (blank_runs t) = t \<and>
   length (split_blank t) = Suc (length (blank_runs t)) \<and>
   (\<forall>sep \<in> set (blank_runs t). 2 \<le> length sep \<and> set sep = {NL}) \<and>
   (\<forall>p \<in> set (split_blank t). \<not> blank_in p)"
  using chunkText_texts chunkText_ids split_blank_rejoin length_blank_runs blank_runs_newlines
    split_blank_pieces
  by blast

lemma isSpace_SP: "isSpace SP" by (simp add: isSpace_def SP_def)
lemma not_isSpace_a: "\<not> isSpace 0x61" by (simp add: isSpace_def)

lemma trim_replicate: "\<not> isSpace c \<Longrightarrow> trim (replicate n c) = replicate n c"
  by (cases "n = 0") (auto intro!: trim_fixed simp: trim_def)

lemma trim_SP_replicate: "\<not> isSpace c \<Longrightarrow> trim (SP # replicate n c) = replicate n c"
  using trim_replicate [of c n] by (simp add: trim_def isSpace_SP)

lemma split_blank_replicate: "c \<noteq> NL \<Longrightarrow> split_blank (replicate n c) = [replicate n c]"
  by (rule split_blank_no_NL) simp

text \<open>
  A piece of exactly 40 code units is discarded, and a piece that is kept keeps its leading
  white space.
\<close>

theorem chunkText_40_counterexample:
  "length (trim (replicate 40 (0x61 :: code_unit))) = 40 \<and>
   chunkText (replicate 40 0x61) (js ''post'') = [] \<and>
   chunkText (SP # replicate 41 0x61) (js ''post'') =
     [\<lparr>chunk_id = js ''post#para-0'', chunk_text = SP # replicate 41 0x61\<rparr>]"
proof -
  have a: "(0x61 :: code_unit) \<noteq> NL" "SP \<noteq> NL" by (simp_all add: NL_def SP_def)
  have s1: "split_blank (replicate 40 (0x61 :: code_unit)) = [replicate 40 0x61]"
    using a by (simp add: split_blank_replicate)
  have s2: "split_blank (SP # replicate 41 (0x61 :: code_unit)) = [SP # replicate 41 0x61]"
    using a by (intro split_blank_no_NL) auto
  show ?thesis
    by (simp add: chunkText_def s1 s2 trim_replicate trim_SP_replicate not_isSpace_a
        enumerate_eq_zip digits_0 js_def)
qed

section \<open>The queue and the batches\<close>

lemma embed_in_batches_Nil: "embed_in_batches ex [] = []"
  by (simp add: embed_in_batches.simps)

lemma embed_in_batches_short:
  "items \<noteq> [] \<Longrightarrow> length items \<le> BATCH_SIZE \<Longrightarrow>
   embed_in_batches ex items = map2 mk_entry items (outputs_of ex (map item_text items))"
  by (subst embed_in_batches.simps) (simp add: embed_in_batches_Nil)

lemma embed_in_batches_append:
  "length xs mod BATCH_SIZE = 0 \<Longrightarrow>
   embed_in_batches ex (xs @ ys) = embed_in_batches ex xs @ embed_in_batches ex ys"
proof (induction ex xs rule: embed_in_batches.induct)
  case (1 ex items)
  show ?case
  proof (cases "items = []")
    case True
    then show ?thesis by (simp add: embed_in_batches_Nil)
  next
    case False
    with "1.prems" have len: "BATCH_SIZE \<le> length items"
      by (auto simp: BATCH_SIZE_def mod_eq_0_iff_dvd dest!: dvd_imp_le)
    then have "length (drop BATCH_SIZE items) mod BATCH_SIZE = 0"
      using "1.prems" by (simp add: BATCH_SIZE_def mod_eq_0_iff_dvd)
    with "1.IH" False
    have ih: "embed_in_batches ex (drop BATCH_SIZE items @ ys) =
              embed_in_batches ex (drop BATCH_SIZE items) @ embed_in_batches ex ys"
      by simp
    have "embed_in_batches ex (items @ ys) =
            map2 mk_entry (take BATCH_SIZE items)
              (outputs_of ex (map item_text (take BATCH_SIZE items)))
            @ embed_in_batches ex (drop BATCH_SIZE items @ ys)"
      using False len by (subst embed_in_batches.simps) simp
    also have "\<dots> = embed_in_batches ex items @ embed_in_batches ex ys"
      using False by (simp add: ih embed_in_batches.simps [of ex items])
    finally show ?thesis .
  qed
qed

lemma flushBatch_prefix:
  assumes fl: "flushBatch ex s = (s', None)"
    and q: "queue s = drop n items"
    and e: "embeddings s = embed_in_batches ex (take n items)"
    and l: "length (embeddings s) = n"
    and m: "n mod BATCH_SIZE = 0"
  shows "queue s' = drop (n + min BATCH_SIZE (length (queue s))) items \<and>
         embeddings s' = embed_in_batches ex (take (n + min BATCH_SIZE (length (queue s))) items) \<and>
         length (embeddings s') = n + min BATCH_SIZE (length (queue s))"
proof (cases "queue s = []")
  case True
  with fl have "s' = s" by (simp add: flushBatch_def)
  with True q e l show ?thesis by simp
next
  case False
  define batch where "batch = take BATCH_SIZE (queue s)"
  define k where "k = min BATCH_SIZE (length (queue s))"
  have nle: "n \<le> length items" using False q by (cases "n \<le> length items") auto
  have lb: "length batch = k" by (simp add: batch_def k_def)
  have bne: "batch \<noteq> []" using False by (simp add: batch_def BATCH_SIZE_def)
  have ble: "length batch \<le> BATCH_SIZE" by (simp add: batch_def)
  from fl False obtain outs where
    outs: "extractor ex (map item_text batch) = Some outs"
    and lo: "length batch \<le> length outs"
    and s': "s' = s\<lparr>queue := drop BATCH_SIZE (queue s),
                    calls := calls s @ [map item_text batch],
                    embeddings := embeddings s @ map2 mk_entry batch outs\<rparr>"
    by (auto simp: flushBatch_def Let_def batch_def split: option.splits if_splits)
  have tk: "take (n + k) items = take n items @ batch"
    by (auto simp: take_add batch_def k_def q min_def)
  have "embed_in_batches ex (take (n + k) items) =
        embed_in_batches ex (take n items) @ embed_in_batches ex batch"
    unfolding tk using m nle by (intro embed_in_batches_append) simp
  also have "embed_in_batches ex batch = map2 mk_entry batch outs"
    using bne ble outs by (simp add: embed_in_batches_short outputs_of_def)
  finally have "embeddings s' = embed_in_batches ex (take (n + k) items)"
    using e by (simp add: s')
  moreover have "queue s' = drop (n + k) items"
    by (simp add: s' q k_def add.commute min_def)
  moreover have "length (embeddings s') = n + k"
    using l lo lb by (simp add: s')
  ultimately show ?thesis by (simp add: k_def)
qed

lemma loop_body_pushes:
  assumes "loop_body ex prev f s = (s', None)"
  shows "s' = s\<lparr>queue := queue s @ file_items ex prev f\<rparr> \<or>
         (BATCH_SIZE * MAX_CONCURRENCY \<le> length (queue s @ file_items ex prev f) \<and>
          flushBatch ex (s\<lparr>queue := queue s @ file_items ex prev f\<rparr>) = (s', None))"
  using assms
  by (auto simp: loop_body_def file_items_def Let_def split: option.splits if_splits)

lemma loop_body_prefix:
  assumes lb: "loop_body ex prev f s = (s', None)"
    and q: "queue s = drop n items"
    and e: "embeddings s = embed_in_batches ex (take n items)"
    and l: "length (embeddings s) = n"
    and m: "n mod BATCH_SIZE = 0"
    and nle: "n \<le> length items"
  shows "\<exists>n'. n' mod BATCH_SIZE = 0 \<and> n' \<le> length (items @ file_items ex prev f) \<and>
           queue s' = drop n' (items @ file_items ex prev f) \<and>
           embeddings s' = embed_in_batches ex (take n' (items @ file_items ex prev f)) \<and>
           length (embeddings s') = n'"
proof -
  define new where "new = file_items ex prev f"
  define s1 where "s1 = s\<lparr>queue := queue s @ new\<rparr>"
  have q1: "queue s1 = drop n (items @ new)" using q nle by (simp add: s1_def)
  have e1: "embeddings s1 = embed_in_batches ex (take n (items @ new))"
    using e nle by (simp add: s1_def)
  have l1: "length (embeddings s1) = n" using l by (simp add: s1_def)
  from loop_body_pushes [OF lb]
  consider "s' = s1"
    | "BATCH_SIZE * MAX_CONCURRENCY \<le> length (queue s1)" "flushBatch ex s1 = (s', None)"
    by (auto simp: s1_def new_def)
  then show ?thesis
  proof cases
    case 1
    then show ?thesis using q1 e1 l1 m nle unfolding new_def [symmetric]
      by (intro exI [of _ n]) simp
  next
    case 2
    then have k: "min BATCH_SIZE (length (queue s1)) = BATCH_SIZE"
      by (simp add: BATCH_SIZE_def MAX_CONCURRENCY_def)
    from 2(1) q1 have "n + BATCH_SIZE \<le> length (items @ new)"
      by (simp add: BATCH_SIZE_def MAX_CONCURRENCY_def)
    moreover have "(n + BATCH_SIZE) mod BATCH_SIZE = 0" using m by simp
    moreover note flushBatch_prefix [OF 2(2) q1 e1 l1 m, unfolded k]
    ultimately show ?thesis unfolding new_def [symmetric]
      by (intro exI [of _ "n + BATCH_SIZE"]) auto
  qed
qed

lemma ingest_prefix:
  assumes "ingest ex prev files s = (s', None)"
    and "queue s = drop n items"
    and "embeddings s = embed_in_batches ex (take n items)"
    and "length (embeddings s) = n"
    and "n mod BATCH_SIZE = 0"
    and "n \<le> length items"
  shows "\<exists>n'. n' mod BATCH_SIZE = 0 \<and>
           n' \<le> length (items @ concat (map (file_items ex prev) files)) \<and>
           queue s' = drop n' (items @ concat (map (file_items ex prev) files)) \<and>
           embeddings s' =
             embed_in_batches ex (take n' (items @ concat (map (file_items ex prev) files))) \<and>
           length (embeddings s') = n'"
  using assms
proof (induction files arbitrary: s n items)
  case Nil
  then show ?case by (intro exI [of _ n]) simp
next
  case (Cons f files)
  from Cons.prems(1) obtain s1 where
    lb: "loop_body ex prev f s = (s1, None)" and rest: "ingest ex prev files s1 = (s', None)"
    by (auto split: prod.splits option.splits)
  from loop_body_prefix [OF lb Cons.prems(2-6)] obtain n1 where
    n1: "n1 mod BATCH_SIZE = 0 \<and> n1 \<le> length (items @ file_items ex prev f) \<and>
         queue s1 = drop n1 (items @ file_items ex prev f) \<and>
         embeddings s1 = embed_in_batches ex (take n1 (items @ file_items ex prev f)) \<and>
         length (embeddings s1) = n1" ..
  then have "\<exists>n'. n' mod BATCH_SIZE = 0 \<and>
      n' \<le> length ((items @ file_items ex prev f) @ concat (map (file_items ex prev) files)) \<and>
      queue s' = drop n' ((items @ file_items ex prev f) @ concat (map (file_items ex prev) files)) \<and>
      embeddings s' = embed_in_batches ex
        (take n' ((items @ file_items ex prev f) @ concat (map (file_items ex prev) files))) \<and>
      length (embeddings s') = n'"
    by (intro Cons.IH [OF rest]) blast+
  then show ?case by (simp only: list.map concat.simps append_assoc)
qed

lemma main_done:
  assumes "main ex files disk = (disk', s', None)" and "files \<noteq> []"
  shows "\<exists>n. n \<le> length (concat (map (file_items ex (load_prev disk)) files)) \<and>
           disk' = Json (embed_in_batches ex
                     (take n (concat (map (file_items ex (load_prev disk)) files)))) \<and>
           length (embed_in_batches ex
                     (take n (concat (map (file_items ex (load_prev disk)) files)))) = n"
proof -
  define pushed where "pushed = concat (map (file_items ex (load_prev disk)) files)"
  from assms obtain s where
    ing: "ingest ex (load_prev disk) files init = (s, None)"
    and fl: "flushBatch ex s = (s', None)"
    and d: "disk' = Json (embeddings s')"
    by (auto simp: main_def Let_def split: prod.splits option.splits)
  have "\<exists>n. n mod BATCH_SIZE = 0 \<and> n \<le> length pushed \<and> queue s = drop n pushed \<and>
          embeddings s = embed_in_batches ex (take n pushed) \<and> length (embeddings s) = n"
    using ingest_prefix [OF ing, of 0 "[]"]
    by (simp add: init_def embed_in_batches_Nil pushed_def)
  then obtain n where nn: "n mod BATCH_SIZE = 0 \<and> n \<le> length pushed \<and> queue s = drop n pushed \<and>
      embeddings s = embed_in_batches ex (take n pushed) \<and> length (embeddings s) = n" ..
  have n: "n mod BATCH_SIZE = 0" "n \<le> length pushed" "queue s = drop n pushed"
    "embeddings s = embed_in_batches ex (take n pushed)" "length (embeddings s) = n"
    using nn by auto
  define n' where "n' = n + min BATCH_SIZE (length (queue s))"
  from flushBatch_prefix [OF fl n(3,4,5,1)]
  have "embeddings s' = embed_in_batches ex (take n' pushed)" "length (embeddings s') = n'"
    by (auto simp: n'_def)
  moreover have "n' \<le> length pushed" using n(2,3) by (simp add: n'_def)
  ultimately show ?thesis using d unfolding pushed_def by (intro exI [of _ n']) simp
qed

lemma length_embed_in_batches: "length (embed_in_batches ex xs) \<le> length xs"
proof (induction ex xs rule: embed_in_batches.induct)
  case (1 ex items)
  show ?case
  proof (cases "items = []")
    case True
    then show ?thesis by (simp add: embed_in_batches_Nil)
  next
    case False
    with "1.IH" have "length (embed_in_batches ex (drop BATCH_SIZE items)) \<le> length items - BATCH_SIZE"
      by simp
    then show ?thesis using False
      by (subst embed_in_batches.simps) (auto simp: min_def)
  qed
qed

lemma map2_mk_entry_meta:
  "length b \<le> length outs \<Longrightarrow> map entry_meta (map2 mk_entry b outs) = map item_meta b"
proof (induction b arbitrary: outs)
  case Nil
  then show ?case by simp
next
  case (Cons a b)
  then show ?case by (cases outs) (auto simp: entry_meta_def mk_entry_def)
qed

lemma embed_in_batches_meta:
  "length (embed_in_batches ex xs) = length xs \<Longrightarrow>
   map entry_meta (embed_in_batches ex xs) = map item_meta xs"
proof (induction ex xs rule: embed_in_batches.induct)
  case (1 ex items)
  show ?case
  proof (cases "items = []")
    case True
    then show ?thesis by (simp add: embed_in_batches_Nil)
  next
    case False
    define outs where "outs = outputs_of ex (map item_text (take BATCH_SIZE items))"
    have eq: "embed_in_batches ex items =
          map2 mk_entry (take BATCH_SIZE items) outs @ embed_in_batches ex (drop BATCH_SIZE items)"
      using False by (subst embed_in_batches.simps) (simp add: outs_def)
    have le: "length (embed_in_batches ex (drop BATCH_SIZE items)) \<le> length (drop BATCH_SIZE items)"
      by (rule length_embed_in_batches)
    have "length (map2 mk_entry (take BATCH_SIZE items) outs) \<le> length (take BATCH_SIZE items)"
      by (simp add: min_def)
    with "1.prems" le eq
    have a: "length (map2 mk_entry (take BATCH_SIZE items) outs) = length (take BATCH_SIZE items)"
      and b: "length (embed_in_batches ex (drop BATCH_SIZE items)) = length (drop BATCH_SIZE items)"
      by (auto simp: min_def split: if_splits)
    from a have "length (take BATCH_SIZE items) \<le> length outs" by (simp add: min_def split: if_splits)
    then have "map entry_meta (map2 mk_entry (take BATCH_SIZE items) outs) =
               map item_meta (take BATCH_SIZE items)"
      by (rule map2_mk_entry_meta)
    moreover have "map entry_meta (embed_in_batches ex (drop BATCH_SIZE items)) =
                   map item_meta (drop BATCH_SIZE items)"
      using "1.IH" False b by simp
    ultimately have "map entry_meta (embed_in_batches ex items) =
        map item_meta (take BATCH_SIZE items) @ map item_meta (drop BATCH_SIZE items)"
      by (simp add: eq)
    then show ?thesis by (simp flip: map_append)
  qed
qed


text \<open>
  When the build completes, every queued fragment has either become a record of the
  artifact or is still in the queue.
\<close>

lemma main_done_queue:
  assumes "main ex files disk = (disk', s', None)" and "files \<noteq> []"
  shows "\<exists>n. n \<le> length (concat (map (file_items ex (load_prev disk)) files)) \<and>
           disk' = Json (embeddings s') \<and> length (embeddings s') = n \<and>
           queue s' = drop n (concat (map (file_items ex (load_prev disk)) files))"
proof -
  define pushed where "pushed = concat (map (file_items ex (load_prev disk)) files)"
  from assms obtain s where
    ing: "ingest ex (load_prev disk) files init = (s, None)"
    and fl: "flushBatch ex s = (s', None)"
    and d: "disk' = Json (embeddings s')"
    by (auto simp: main_def Let_def split: prod.splits option.splits)
  have "\<exists>n. n mod BATCH_SIZE = 0 \<and> n \<le> length pushed \<and> queue s = drop n pushed \<and>
          embeddings s = embed_in_batches ex (take n pushed) \<and> length (embeddings s) = n"
    using ingest_prefix [OF ing, of 0 "[]"]
    by (simp add: init_def embed_in_batches_Nil pushed_def)
  then obtain n where nn: "n mod BATCH_SIZE = 0 \<and> n \<le> length pushed \<and> queue s = drop n pushed \<and>
      embeddings s = embed_in_batches ex (take n pushed) \<and> length (embeddings s) = n" ..
  have n: "n mod BATCH_SIZE = 0" "n \<le> length pushed" "queue s = drop n pushed"
    "embeddings s = embed_in_batches ex (take n pushed)" "length (embeddings s) = n"
    using nn by auto
  define n' where "n' = n + min BATCH_SIZE (length (queue s))"
  from flushBatch_prefix [OF fl n(3,4,5,1)]
  have "queue s' = drop n' pushed" "length (embeddings s') = n'"
    by (auto simp: n'_def)
  moreover have "n' \<le> length pushed" using n(2,3) by (simp add: n'_def)
  ultimately show ?thesis using d unfolding pushed_def by (intro exI [of _ n']) simp
qed

lemma written_and_queued:
  assumes "main ex files disk = (disk', s', None)" and "files \<noteq> []"
  shows "length (embeddings s') + length (queue s') =
         length (concat (map (file_items ex (load_prev disk)) files))"
  using main_done_queue [OF assms] by auto

text \<open>A document the change check skips leaves the build's variables as they are.\<close>

lemma skip_unchanged:
  assumes "fs_stat ex f = Some mtime" and "fs_readFile ex f = Some raw"
    and "matter ex raw = Some (content, fm)"
    and "unchanged prev (deriveSlug (path_relative ex) (toLowerCase ex) f (fm_slug fm)) mtime"
  shows "loop_body ex prev f s = (s, None)"
  using assms by (simp add: loop_body_def Let_def)

section \<open>Errors and the artifact file\<close>

text \<open>
  C10: with no document enumerated the build completes and writes the serialized empty
  sequence.
\<close>

theorem empty_corpus: "main ex [] disk = (Json [], init, None)"
  by (simp add: main_def)

lemma main_error_keeps_disk:
  assumes "main ex files disk = (disk', s', Some e)"
  shows "disk' = disk"
  using assms by (auto simp: main_def Let_def split: if_splits prod.splits option.splits)

lemma flushBatch_calls:
  assumes "flushBatch ex s = (s', r)" and "\<forall>t \<in> set (calls s). extractor ex t \<noteq> None"
    and "r \<noteq> Some ExtractorError"
  shows "\<forall>t \<in> set (calls s'). extractor ex t \<noteq> None"
  using assms by (auto simp: flushBatch_def Let_def split: if_splits option.splits)

lemma loop_body_cases:
  obtains (throw) e where "loop_body ex prev f s = (s, Some e)" "e \<noteq> ExtractorError"
  | (continue) "loop_body ex prev f s = (s, None)"
  | (push) items where "loop_body ex prev f s = (s\<lparr>queue := queue s @ items\<rparr>, None)"
  | (flush) items where "loop_body ex prev f s = flushBatch ex (s\<lparr>queue := queue s @ items\<rparr>)"
proof (cases "fs_stat ex f")
  case None
  then show ?thesis by (intro throw [of StatError]) (simp_all add: loop_body_def)
next
  case st: (Some mtime)
  show ?thesis
  proof (cases "fs_readFile ex f")
    case None
    with st show ?thesis by (intro throw [of ReadError]) (simp_all add: loop_body_def)
  next
    case rd: (Some raw)
    show ?thesis
    proof (cases "matter ex raw")
      case None
      with st rd show ?thesis by (intro throw [of MatterError]) (simp_all add: loop_body_def)
    next
      case (Some p)
      obtain content fm where p: "p = (content, fm)" by (cases p)
      define slug where "slug = deriveSlug (path_relative ex) (toLowerCase ex) f (fm_slug fm)"
      define items where "items = queue_items slug (or_else (fm_title fm) slug)
        (or_else (fm_description fm) []) mtime (chunkText (markdownToPlain (remark_strip ex) content) slug)"
      consider "fm_draft fm \<or> unchanged prev slug mtime"
        | "\<not> fm_draft fm" "\<not> unchanged prev slug mtime"
          "BATCH_SIZE * MAX_CONCURRENCY \<le> length (queue s @ items)"
        | "\<not> fm_draft fm" "\<not> unchanged prev slug mtime"
          "\<not> BATCH_SIZE * MAX_CONCURRENCY \<le> length (queue s @ items)"
        by blast
      then show ?thesis
      proof cases
        case 1
        with st rd Some p show ?thesis
          by (intro continue) (auto simp: loop_body_def Let_def slug_def)
      next
        case 2
        with st rd Some p show ?thesis
          by (intro flush [of items]) (simp add: loop_body_def Let_def slug_def items_def)
      next
        case 3
        with st rd Some p show ?thesis
          by (intro push [of items]) (simp add: loop_body_def Let_def slug_def items_def)
      qed
    qed
  qed
qed

lemma loop_body_calls:
  assumes "loop_body ex prev f s = (s', r)" and "\<forall>t \<in> set (calls s). extractor ex t \<noteq> None"
    and "r \<noteq> Some ExtractorError"
  shows "\<forall>t \<in> set (calls s'). extractor ex t \<noteq> None"
proof (cases rule: loop_body_cases [of ex prev f s])
  case (throw e)
  with assms show ?thesis by simp
next
  case continue
  with assms show ?thesis by simp
next
  case (push items)
  with assms show ?thesis by auto
next
  case (flush items)
  with assms(1) have "flushBatch ex (s\<lparr>queue := queue s @ items\<rparr>) = (s', r)" by simp
  from flushBatch_calls [OF this _ assms(3)] assms(2) show ?thesis by simp
qed

lemma ingest_calls:
  assumes "ingest ex prev files s = (s', r)" and "\<forall>t \<in> set (calls s). extractor ex t \<noteq> None"
    and "r \<noteq> Some ExtractorError"
  shows "\<forall>t \<in> set (calls s'). extractor ex t \<noteq> None"
  using assms
proof (induction files arbitrary: s)
  case Nil
  then show ?case by simp
next
  case (Cons f files)
  obtain s1 r1 where lb: "loop_body ex prev f s = (s1, r1)" by (cases "loop_body ex prev f s")
  show ?case
  proof (cases r1)
    case None
    with lb Cons.prems(1) have "ingest ex prev files s1 = (s', r)" by simp
    moreover have "\<forall>t \<in> set (calls s1). extractor ex t \<noteq> None"
      using loop_body_calls [OF lb Cons.prems(2)] None by simp
    ultimately show ?thesis using Cons.IH Cons.prems(3) by blast
  next
    case (Some e)
    with lb Cons.prems(1) have "s' = s1" "r = r1" by simp_all
    with loop_body_calls [OF lb Cons.prems(2)] Cons.prems(3) show ?thesis by simp
  qed
qed

lemma main_calls:
  assumes "main ex files disk = (disk', s', r)" and "r \<noteq> Some ExtractorError"
  shows "\<forall>t \<in> set (calls s'). extractor ex t \<noteq> None"
proof (cases "files = []")
  case True
  with assms(1) show ?thesis by (auto simp: main_def init_def)
next
  case False
  obtain s1 r1 where ing: "ingest ex (load_prev disk) files init = (s1, r1)"
    by (cases "ingest ex (load_prev disk) files init")
  have i0: "\<forall>t \<in> set (calls (init :: 'a build)). extractor ex t \<noteq> None" by (simp add: init_def)
  show ?thesis
  proof (cases r1)
    case (Some e)
    with ing assms(1) False have "s' = s1" "r = r1" by (simp_all add: main_def)
    with ingest_calls [OF ing i0] assms(2) show ?thesis by simp
  next
    case None
    obtain s2 r2 where fl: "flushBatch ex s1 = (s2, r2)" by (cases "flushBatch ex s1")
    with ing None assms(1) False have "s' = s2" "r = r2"
      by (auto simp: main_def split: option.splits)
    moreover have "\<forall>t \<in> set (calls s1). extractor ex t \<noteq> None"
      using ingest_calls [OF ing i0] None by simp
    ultimately show ?thesis using flushBatch_calls [OF fl] assms(2) by simp
  qed
qed

text \<open>
  C3: when some provider call of the run throws, the run ends with that error and the
  artifact file is what it was before the run.
\<close>

theorem provider_failure_writes_nothing:
  assumes "main ex files disk = (disk', s', r)"
    and "t \<in> set (calls s')" and "extractor ex t = None"
  shows "r = Some ExtractorError \<and> disk' = disk"
proof -
  have r: "r = Some ExtractorError"
    using main_calls [OF assms(1)] assms(2,3) by blast
  with assms(1) have "disk' = disk" by (simp add: main_error_keeps_disk)
  with r show ?thesis by simp
qed

lemma loop_body_parses:
  assumes "loop_body ex prev f s = (s', None)" and "fs_readFile ex f = Some raw"
  shows "matter ex raw \<noteq> None"
  using assms by (auto simp: loop_body_def split: option.splits)

lemma ingest_parses:
  assumes "ingest ex prev files s = (s', None)" and "f \<in> set files"
    and "fs_readFile ex f = Some raw"
  shows "matter ex raw \<noteq> None"
  using assms
proof (induction files arbitrary: s)
  case Nil
  then show ?case by simp
next
  case (Cons g files)
  from Cons.prems(1) obtain s1 where
    lb: "loop_body ex prev g s = (s1, None)" and rest: "ingest ex prev files s1 = (s', None)"
    by (auto split: prod.splits option.splits)
  show ?case
  proof (cases "f = g")
    case True
    with lb Cons.prems(3) show ?thesis by (simp add: loop_body_parses)
  next
    case False
    with Cons.prems(2) have "f \<in> set files" by simp
    from Cons.IH [OF rest this Cons.prems(3)] show ?thesis .
  qed
qed

text \<open>
  C9, as the code has it: a document whose front matter the parser rejects ends the run
  with an error; the artifact file is left as it was and no document is indexed.
\<close>

theorem malformed_front_matter_aborts:
  assumes "main ex files disk = (disk', s', r)"
    and "f \<in> set files" and "fs_readFile ex f = Some raw" and "matter ex raw = None"
  shows "r \<noteq> None \<and> disk' = disk"
proof -
  have "r \<noteq> None"
  proof
    assume "r = None"
    with assms(1,2) obtain s where "ingest ex (load_prev disk) files init = (s, None)"
      by (auto simp: main_def Let_def split: if_splits prod.splits option.splits)
    from ingest_parses [OF this assms(2,3)] assms(4) show False by simp
  qed
  then obtain e where "r = Some e" by auto
  with assms(1) show ?thesis by (simp add: main_error_keeps_disk)
qed

section \<open>Drafts\<close>

lemma file_items_slug:
  assumes "it \<in> set (file_items ex prev f)"
  shows "\<not> is_draft ex f \<and> doc_slug ex f = Some (m_slug (item_meta it))"
proof (cases "fs_stat ex f")
  case None
  with assms show ?thesis by (simp add: file_items_def)
next
  case st: (Some mtime)
  show ?thesis
  proof (cases "fs_readFile ex f")
    case None
    with assms st show ?thesis by (simp add: file_items_def)
  next
    case rd: (Some raw)
    show ?thesis
    proof (cases "matter ex raw")
      case None
      with assms st rd show ?thesis by (simp add: file_items_def)
    next
      case (Some p)
      obtain content fm where p: "p = (content, fm)" by (cases p)
      with assms st rd Some show ?thesis
        by (auto simp: file_items_def is_draft_def doc_slug_def queue_items_def Let_def
            split: if_splits)
    qed
  qed
qed

lemma entry_meta_slug: "m_slug (entry_meta e) = e_slug e"
  by (simp add: entry_meta_def)

text \<open>
  C7: when the build completes, the artifact has no record with the slug of a draft
  document, whatever the previous artifact held, provided no document that is not a draft
  has the same slug (slugs identify documents).
\<close>

theorem draft_contributes_nothing:
  assumes run: "main ex files disk = (disk', s', None)"
    and d: "d \<in> set files" and dr: "is_draft ex d"
    and uniq: "\<forall>f \<in> set files. \<not> is_draft ex f \<longrightarrow> doc_slug ex f \<noteq> doc_slug ex d"
  shows "\<exists>es. disk' = Json es \<and> (\<forall>e \<in> set es. Some (e_slug e) \<noteq> doc_slug ex d)"
proof -
  define pushed where "pushed = concat (map (file_items ex (load_prev disk)) files)"
  from d have ne: "files \<noteq> []" by auto
  from main_done [OF run ne] obtain n where
    n: "n \<le> length pushed \<and> disk' = Json (embed_in_batches ex (take n pushed)) \<and>
        length (embed_in_batches ex (take n pushed)) = n"
    unfolding pushed_def ..
  define es where "es = embed_in_batches ex (take n pushed)"
  have len: "length es = length (take n pushed)" using n by (simp add: es_def)
  then have metas: "map entry_meta es = map item_meta (take n pushed)"
    unfolding es_def by (rule embed_in_batches_meta)
  have "Some (e_slug e) \<noteq> doc_slug ex d" if "e \<in> set es" for e
  proof -
    from that have "entry_meta e \<in> set (map entry_meta es)" by simp
    then have "entry_meta e \<in> item_meta ` set (take n pushed)" by (simp add: metas)
    then obtain it where it: "it \<in> set pushed" "item_meta it = entry_meta e"
      by (auto dest: in_set_takeD)
    then obtain f where f: "f \<in> set files" "it \<in> set (file_items ex (load_prev disk) f)"
      by (auto simp: pushed_def)
    from file_items_slug [OF f(2)] it(2)
    have "\<not> is_draft ex f" "doc_slug ex f = Some (e_slug e)"
      by (simp_all add: entry_meta_slug)
    with uniq f(1) show ?thesis by auto
  qed
  with n show ?thesis unfolding es_def by blast
qed

section \<open>Example runs\<close>

lemma length_body43: "length body43 = 43"
  by (simp add: body43_def js_def)

lemma plain_body43: "markdownToPlain (\<lambda>md. md) body43 = body43"
  by (simp add: markdownToPlain_def body43_def js_def isSpace_def SP_def trim_def)

lemma chunkText_body43:
  "chunkText body43 slug = [\<lparr>chunk_id = slug @ js ''#para-0'', chunk_text = body43\<rparr>]"
  using chunkText_plain [of "\<lambda>md. md" body43 slug] by (simp add: plain_body43 length_body43)

lemma split_two_paragraphs:
  "split_blank two_paragraphs = [body43, js ''short'', body43]"
  by (simp add: two_paragraphs_def body43_def js_def NL_def prepend_def)

lemma runs_two_paragraphs:
  "blank_runs two_paragraphs = [[NL, NL, NL], [NL, NL]]"
  by (simp add: two_paragraphs_def body43_def js_def NL_def)

lemma trim_body43: "trim body43 = body43"
  using trim_markdownToPlain [of "\<lambda>md. md" body43] by (simp add: plain_body43)

text \<open>
  The chunker on two paragraphs with a short one between them: the short piece is dropped
  and the second paragraph is numbered 1.
\<close>

theorem chunkText_threshold_witness:
  "split_blank two_paragraphs = [body43, js ''short'', body43] \<and>
   blank_runs two_paragraphs = [[NL, NL, NL], [NL, NL]] \<and>
   map chunk_text (chunkText two_paragraphs (js ''post'')) = [body43, body43] \<and>
   map chunk_id (chunkText two_paragraphs (js ''post'')) = [js ''post#para-0'', js ''post#para-1'']"
proof -
  have t: "length (trim (js ''short'')) = 5" by (simp add: trim_def js_def isSpace_def)
  have l: "length (chunkText two_paragraphs (js ''post'')) = 2"
    by (simp add: chunkText_def split_two_paragraphs trim_body43 length_body43 t)
  have d: "digits (Suc 0) = js ''1''" by (simp add: digits.simps js_def)
  have u: "[0..<2] = [0, Suc 0]" by (simp add: upt_rec)
  note th = chunkText_threshold [of two_paragraphs "js ''post''"]
  from th have "map chunk_text (chunkText two_paragraphs (js ''post'')) =
      filter (\<lambda>p. 40 < length (trim p)) (split_blank two_paragraphs)"
    by (rule conjunct1)
  then have a: "map chunk_text (chunkText two_paragraphs (js ''post'')) = [body43, body43]"
    by (simp add: split_two_paragraphs trim_body43 length_body43 t)
  from th have "map chunk_id (chunkText two_paragraphs (js ''post'')) =
      map (\<lambda>i. js ''post'' @ js ''#para-'' @ digits i)
        [0..<length (chunkText two_paragraphs (js ''post''))]"
    by (rule conjunct2 [THEN conjunct1])
  then have b: "map chunk_id (chunkText two_paragraphs (js ''post'')) =
      [js ''post#para-0'', js ''post#para-1'']"
    by (simp only: l u) (simp add: digits_0 d js_def)
  from a b show ?thesis by (simp add: split_two_paragraphs runs_two_paragraphs)
qed

lemma demo_matter_simps:
  "demo_matter body43 = Some (body43, no_fields)"
  "demo_matter raw_bad = None"
  "demo_matter raw_draft = Some (body43, no_fields\<lparr>fm_draft := True\<rparr>)"
  "demo_matter raw_slug = Some (body43, no_fields\<lparr>fm_slug := Some (js ''a#para-0'')\<rparr>)"
  by (simp_all add: demo_matter_def raw_bad_def raw_draft_def raw_slug_def body43_def js_def)

lemmas demo_eval =
  main_def loop_body_def flushBatch_def queue_items_def load_prev_def prev_set_def
  unchanged_def or_else_def init_def BATCH_SIZE_def MAX_CONCURRENCY_def Let_def
  demo_def demo_readFile_def demo_matter_simps plain_body43 chunkText_body43 length_body43
  deriveSlug_def slashes_def lower_ascii_def CONTENT_DIR_def post_def js_def mk_entry_def
  no_fields_def demo_entry_def demo_text_def trim_def isSpace_def

lemma run_first:
  "main demo [post ''a'', post ''alias''] Absent =
     (Json [demo_entry ''a'' ''a#para-0'' 48, demo_entry ''a#para-0'' ''a#para-0#para-0'' 55],
      \<lparr>queue = [],
       embeddings = [demo_entry ''a'' ''a#para-0'' 48, demo_entry ''a#para-0'' ''a#para-0#para-0'' 55],
       calls = [[demo_text ''a'', demo_text ''a#para-0'']]\<rparr>,
      None)"
  by (simp add: demo_eval)

lemma run_second:
  "main demo [post ''a'', post ''alias'']
     (Json [demo_entry ''a'' ''a#para-0'' 48, demo_entry ''a#para-0'' ''a#para-0#para-0'' 55]) =
     (Json [demo_entry ''a'' ''a#para-0'' 48],
      \<lparr>queue = [], embeddings = [demo_entry ''a'' ''a#para-0'' 48],
       calls = [[demo_text ''a'']]\<rparr>,
      None)"
  by (simp add: demo_eval)

text \<open>
  C1 on the code: a corpus of two unchanged posts is built twice, the second time over the
  artifact of the first. The keys of \<open>prev\<close> are record ids, and the slug of the first post
  is not one of them: its text is sent to the provider again. The slug of the second post
  happens to be a record id with the same modification time: that post is skipped, and its
  record is not in the new artifact.
\<close>

theorem unchanged_rebuild_recomputes_and_drops:
  "fs_stat demo (post ''a'') = Some 100 \<and> fs_stat demo (post ''alias'') = Some 100 \<and>
   fst (main demo [post ''a'', post ''alias''] Absent) =
     Json [demo_entry ''a'' ''a#para-0'' 48, demo_entry ''a#para-0'' ''a#para-0#para-0'' 55] \<and>
   main demo [post ''a'', post ''alias'']
     (Json [demo_entry ''a'' ''a#para-0'' 48, demo_entry ''a#para-0'' ''a#para-0#para-0'' 55]) =
     (Json [demo_entry ''a'' ''a#para-0'' 48],
      \<lparr>queue = [], embeddings = [demo_entry ''a'' ''a#para-0'' 48],
       calls = [[demo_text ''a'']]\<rparr>,
      None)"
  by (simp add: run_first run_second) (simp add: demo_def)


text \<open>A build whose provider throws, over a previous artifact.\<close>

lemma run_failing:
  "main failing [post ''a''] (Json [demo_entry ''a'' ''a#para-0'' 48]) =
     (Json [demo_entry ''a'' ''a#para-0'' 48],
      \<lparr>queue = [], embeddings = [], calls = [[demo_text ''a'']]\<rparr>,
      Some ExtractorError)"
  by (simp add: failing_def demo_eval)

theorem provider_failure_writes_nothing_witness:
  "(\<exists>t \<in> set (calls (fst (snd (main failing [post ''a''] (Json [demo_entry ''a'' ''a#para-0'' 48]))))).
      extractor failing t = None) \<and>
   snd (snd (main failing [post ''a''] (Json [demo_entry ''a'' ''a#para-0'' 48]))) =
     Some ExtractorError \<and>
   fst (main failing [post ''a''] (Json [demo_entry ''a'' ''a#para-0'' 48])) =
     Json [demo_entry ''a'' ''a#para-0'' 48]"
proof -
  have m: "[demo_text ''a''] \<in> set (calls \<lparr>queue = [], embeddings = ([] :: nat list entry list),
      calls = [[demo_text ''a'']]\<rparr>)"
    by simp
  have f: "extractor failing [demo_text ''a''] = None" by (simp add: failing_def)
  from provider_failure_writes_nothing [OF run_failing m f] f show ?thesis
    by (simp add: run_failing)
qed

text \<open>A build with a draft whose slug has a record in the previous artifact.\<close>

lemma run_draft:
  "main demo [post ''a'', post ''wip''] (Json [demo_entry ''wip'' ''wip#para-0'' 50]) =
     (Json [demo_entry ''a'' ''a#para-0'' 48],
      \<lparr>queue = [], embeddings = [demo_entry ''a'' ''a#para-0'' 48],
       calls = [[demo_text ''a'']]\<rparr>,
      None)"
  by (simp add: demo_eval)

lemmas slug_eval =
  doc_slug_def is_draft_def demo_def demo_readFile_def demo_matter_simps deriveSlug_def
  slashes_def lower_ascii_def CONTENT_DIR_def post_def js_def no_fields_def trim_def isSpace_def

theorem draft_contributes_nothing_witness:
  "is_draft demo (post ''wip'') \<and> doc_slug demo (post ''wip'') = Some (js ''wip'') \<and>
   (\<exists>es. fst (main demo [post ''a'', post ''wip''] (Json [demo_entry ''wip'' ''wip#para-0'' 50])) =
           Json es \<and>
         (\<forall>e \<in> set es. Some (e_slug e) \<noteq> doc_slug demo (post ''wip'')))"
proof -
  have d: "is_draft demo (post ''wip'')" by (simp add: slug_eval)
  have s: "doc_slug demo (post ''wip'') = Some (js ''wip'')" by (simp add: slug_eval)
  have m: "post ''wip'' \<in> set [post ''a'', post ''wip'']" by simp
  have u: "\<forall>f \<in> set [post ''a'', post ''wip''].
             \<not> is_draft demo f \<longrightarrow> doc_slug demo f \<noteq> doc_slug demo (post ''wip'')"
    by (simp add: slug_eval)
  from draft_contributes_nothing [OF run_draft m d u] d s show ?thesis
    by (simp only: run_draft fst_conv simp_thms)
qed

text \<open>
  A build whose first document has front matter that does not parse: it ends with the
  parser's error, nothing is written, and the second document is not indexed.
\<close>

theorem malformed_front_matter_counterexample:
  "main demo [post ''bad'', post ''a''] Absent =
     (Absent, \<lparr>queue = [], embeddings = [], calls = []\<rparr>, Some MatterError)"
  by (simp add: demo_eval)

theorem malformed_front_matter_aborts_witness:
  "fs_readFile demo (post ''bad'') = Some raw_bad \<and> matter demo raw_bad = None \<and>
   snd (snd (main demo [post ''a'', post ''bad''] (Json [demo_entry ''a'' ''a#para-0'' 48]))) \<noteq> None \<and>
   fst (main demo [post ''a'', post ''bad''] (Json [demo_entry ''a'' ''a#para-0'' 48])) =
     Json [demo_entry ''a'' ''a#para-0'' 48]"
proof -
  have m: "post ''bad'' \<in> set [post ''a'', post ''bad'']" by simp
  have r: "fs_readFile demo (post ''bad'') = Some raw_bad"
    by (simp add: demo_def demo_readFile_def)
  have p: "matter demo raw_bad = None" by (simp add: demo_def demo_matter_simps)
  have "main demo [post ''a'', post ''bad''] (Json [demo_entry ''a'' ''a#para-0'' 48]) =
      (fst (main demo [post ''a'', post ''bad''] (Json [demo_entry ''a'' ''a#para-0'' 48])),
       fst (snd (main demo [post ''a'', post ''bad''] (Json [demo_entry ''a'' ''a#para-0'' 48]))),
       snd (snd (main demo [post ''a'', post ''bad''] (Json [demo_entry ''a'' ''a#para-0'' 48]))))"
    by simp
  from malformed_front_matter_aborts [OF this m r p] r p show ?thesis by simp
qed

text \<open>
  C2 on the code: seventeen posts put seventeen fragments on the queue, the threshold of 32
  is never reached, and the one flush after the loop takes sixteen of them. The build
  completes with sixteen records; the fragment of \<open>q.md\<close> is still queued when the artifact
  is written.
\<close>

theorem final_flush_leaves_fragment:
  "length (concat (map (file_items demo (load_prev (Absent :: nat list artifact))) posts17)) = 17 \<and>
   (\<exists>es s. main demo posts17 Absent = (Json es, s, None) \<and> length es = 16 \<and>
      map (\<lambda>it. m_id (item_meta it)) (queue s) = [js ''q#para-0''])"
  by (simp add: posts17_def file_items_def demo_eval)

end
